theory Spec2Isabelle
  imports Main "HOL-Library.Sublist"
begin

section \<open>The region index lister: list-regions.py\<close>

text \<open>
  The script fetches the Geofabrik index, a JSON document, and prints every region path
  of it, one per line, indented by the nesting level. Its three functions are
  \<open>fetch_index\<close>, \<open>walk\<close> and \<open>main\<close>. They work on whatever the JSON parser
  returned, so the model starts from JSON values as Python holds them.
\<close>

subsection \<open>JSON values as Python objects\<close>

text \<open>
  A float is kept only as far as its truth value needs: \<open>Finite m e\<close> stands for
  \<open>m * 2^e\<close> (both signed zeros are \<open>Finite 0 e\<close>). A dict is the list of its
  items in insertion order; the keys of a dict are pairwise distinct, and a lookup is
  \<open>map_of\<close>. Python's \<open>None\<close> is \<open>JNull\<close>. A string is a list of characters;
  nothing below depends on what one character is.
\<close>

datatype pyfloat = Finite int int | Infinity bool | NaN

datatype json =
    JNull
  | JBool bool
  | JInt int
  | JFloat pyfloat
  | JStr string
  | JArr "json list"
  | JObj "(string \<times> json) list"

datatype py_error = AttributeError | TypeError

text \<open>Python's truth value of an object, as \<open>if path:\<close> and \<open>if not data:\<close> test it.\<close>

fun truthy :: "json \<Rightarrow> bool" where
  "truthy JNull = False"
| "truthy (JBool b) = b"
| "truthy (JInt i) = (i \<noteq> 0)"
| "truthy (JFloat f) = (case f of Finite m e \<Rightarrow> m \<noteq> 0 | _ \<Rightarrow> True)"
| "truthy (JStr s) = (s \<noteq> [])"
| "truthy (JArr xs) = (xs \<noteq> [])"
| "truthy (JObj kvs) = (kvs \<noteq> [])"

text \<open>
  \<open>d.get(k, dflt)\<close>: only a dict has the method; on any other object the attribute
  lookup raises AttributeError. The default is returned only when the key is absent.
\<close>

definition dict_get :: "json \<Rightarrow> string \<Rightarrow> json \<Rightarrow> py_error + json" where
  "dict_get d k dflt =
     (case d of
        JObj kvs \<Rightarrow> Inr (case map_of kvs k of None \<Rightarrow> dflt | Some v \<Rightarrow> v)
      | _ \<Rightarrow> Inl AttributeError)"

text \<open>
  The elements a \<open>for\<close> loop draws from an object: the elements of a list, the keys
  of a dict, the one-character strings of a string; \<open>None\<close>, a bool and a number are
  not iterable and raise TypeError.
\<close>

definition py_iter :: "json \<Rightarrow> py_error + json list" where
  "py_iter v =
     (case v of
        JArr xs \<Rightarrow> Inr xs
      | JObj kvs \<Rightarrow> Inr (map (\<lambda>kv. JStr (fst kv)) kvs)
      | JStr s \<Rightarrow> Inr (map (\<lambda>c. JStr [c]) s)
      | _ \<Rightarrow> Inl TypeError)"

text \<open>
  The replacement field of the f-string \<^verbatim>\<open>f"- {path}"\<close>: a string stands for
  itself. The text Python's \<open>str\<close> gives for any other object is a matter of the
  built-in types; it is the parameter \<open>fmt\<close> of the model, and no result below
  depends on it.
\<close>

definition py_format :: "(json \<Rightarrow> string) \<Rightarrow> json \<Rightarrow> string" where
  "py_format fmt v = (case v of JStr s \<Rightarrow> s | _ \<Rightarrow> fmt v)"

text \<open>
  The printed line \<^verbatim>\<open>"  " * indent + f"- {path}"\<close>. A string times an integer
  below one is the empty string, which \<open>nat\<close> gives as well.
\<close>

definition line :: "(json \<Rightarrow> string) \<Rightarrow> int \<Rightarrow> json \<Rightarrow> string" where
  "line fmt indent path = concat (replicate (nat indent) ''  '') @ ''- '' @ py_format fmt path"

subsection \<open>A measure for the recursion of walk\<close>

text \<open>
  \<open>walk\<close> recurses into what iterating the \<open>subregions\<close> entry yields. The
  elements of a string are strings again, on which \<open>walk\<close> stops at once; so the
  measure counts a string by its length and only dicts by their content.
\<close>

fun weight :: "json \<Rightarrow> nat" where
  "weight (JStr s) = length s"
| "weight (JArr xs) = sum_list (map (\<lambda>x. Suc (weight x)) xs)"
| "weight (JObj kvs) = Suc (sum_list (map (\<lambda>kv. Suc (weight (snd kv))) kvs))"
| "weight _ = 0"

definition dict_weight :: "json \<Rightarrow> nat" where
  "dict_weight v = (case v of JObj kvs \<Rightarrow> weight v | _ \<Rightarrow> 0)"

definition each_weight :: "json list \<Rightarrow> nat" where
  "each_weight vs = sum_list (map (\<lambda>v. Suc (dict_weight v)) vs)"

lemma dict_weight_le: "dict_weight v \<le> weight v"
  by (simp add: dict_weight_def split: json.splits)

lemma each_weight_le: "each_weight vs \<le> sum_list (map (\<lambda>v. Suc (weight v)) vs)"
  unfolding each_weight_def
  by (induction vs) (simp_all add: dict_weight_le add_le_mono)

lemma each_weight_strs: "each_weight (map (\<lambda>x. JStr (f x)) xs) = length xs"
  unfolding each_weight_def
  by (induction xs) (simp_all add: dict_weight_def)

lemma length_le_sum_Suc: "length xs \<le> Suc (sum_list (map (\<lambda>x. Suc (f x)) xs))"
  by (induction xs) simp_all

lemma py_iter_weight:
  assumes "py_iter v = Inr vs"
  shows "each_weight vs \<le> weight v"
proof (cases v)
  case (JArr xs)
  with assms show ?thesis by (simp add: py_iter_def each_weight_le)
next
  case (JObj kvs)
  with assms show ?thesis by (auto simp: py_iter_def each_weight_strs length_le_sum_Suc)
next
  case (JStr s)
  with assms show ?thesis by (auto simp: py_iter_def each_weight_strs)
qed (use assms in \<open>simp_all add: py_iter_def\<close>)

lemma map_of_weight: "map_of kvs k = Some v \<Longrightarrow> weight v < weight (JObj kvs)"
proof (induction kvs)
  case Nil
  then show ?case by simp
next
  case (Cons kv kvs)
  then show ?case by (cases kv) (auto split: if_splits)
qed

lemma dict_get_weight:
  "dict_get region k (JArr []) = Inr v \<Longrightarrow> weight v < Suc (dict_weight region)"
  by (auto simp: dict_get_def dict_weight_def split: json.splits option.splits
      dest: map_of_weight)

subsection \<open>walk\<close>

text \<open>
  \<^verbatim>\<open>
  def walk(region: dict, indent: int = 0) -> None:
      path = region.get("path")
      if path:
          print("  " * indent + f"- {path}")
      for sub in region.get("subregions", []):
          walk(sub, indent + 1)
  \<close>
  The standard output is the state: the lines printed so far go in, the lines printed
  after the call come out, together with the exception that ended the call, if any.
  What was printed before an exception stays printed. \<open>walk_each\<close> is the
  \<open>for\<close> loop: it stops at the first call that raises. The exceptions of the
  model are the two that the operations of \<open>walk\<close> raise on a JSON value; the
  interpreter's limit on the depth of recursion and a failing \<open>print\<close> are not
  part of it.
\<close>

function walk :: "(json \<Rightarrow> string) \<Rightarrow> json \<Rightarrow> int \<Rightarrow> string list \<Rightarrow> string list \<times> py_error option"
  and walk_each :: "(json \<Rightarrow> string) \<Rightarrow> json list \<Rightarrow> int \<Rightarrow> string list \<Rightarrow> string list \<times> py_error option"
where
  "walk fmt region indent out =
     (case dict_get region ''path'' JNull of
        Inl e \<Rightarrow> (out, Some e)
      | Inr path \<Rightarrow>
          (let out1 = (if truthy path then out @ [line fmt indent path] else out)
           in case dict_get region ''subregions'' (JArr []) of
                Inl e \<Rightarrow> (out1, Some e)
              | Inr v \<Rightarrow>
                  (case py_iter v of
                     Inl e \<Rightarrow> (out1, Some e)
                   | Inr subs \<Rightarrow> walk_each fmt subs (indent + 1) out1)))"
| "walk_each fmt [] indent out = (out, None)"
| "walk_each fmt (sub # subs) indent out =
     (case walk fmt sub indent out of
        (out1, Some e) \<Rightarrow> (out1, Some e)
      | (out1, None) \<Rightarrow> walk_each fmt subs indent out1)"
  by pat_completeness auto
termination
proof (relation "measure (\<lambda>c. case c of
          Inl (fmt, region, indent, out) \<Rightarrow> 2 * dict_weight region + 1
        | Inr (fmt, subs, indent, out) \<Rightarrow> 2 * each_weight subs)", goal_cases)
  case 1
  show ?case by simp
next
  case (2 fmt region indent out path out1 v subs)
  from 2(3) have "weight v < Suc (dict_weight region)" by (rule dict_get_weight)
  moreover from 2(4) have "each_weight subs \<le> weight v" by (rule py_iter_weight)
  ultimately show ?case by simp
next
  case 3
  then show ?case by (simp add: each_weight_def)
next
  case 4
  then show ?case by (simp add: each_weight_def)
qed

declare walk.simps [simp del]

subsection \<open>fetch_index and main\<close>

text \<open>
  \<^verbatim>\<open>
  def fetch_index() -> dict | None:
      try:
          with urllib.request.urlopen(INDEX_URL) as resp:
              return json.load(resp)
      except Exception as exc:
          print(f"Error fetching index: {exc}", file=sys.stderr)
          return None
  \<close>
  The network is the input of the model: \<open>Inr doc\<close> is the parsed document,
  \<open>Inl msg\<close> an exception whose text is \<open>msg\<close>. The result is the lines written to
  the standard error and the returned object.
\<close>

definition fetch_index :: "string + json \<Rightarrow> string list \<times> json" where
  "fetch_index resp =
     (case resp of
        Inl msg \<Rightarrow> ([''Error fetching index: '' @ msg], JNull)
      | Inr doc \<Rightarrow> ([], doc))"

text \<open>
  \<^verbatim>\<open>
  def main() -> int:
      data = fetch_index()
      if not data:
          return 1
      for region in data.get("subregions", []):
          walk(region)
      return 0
  \<close>
  A run of \<open>main\<close> is what it printed and how it ended: the returned integer, or the
  exception that left it.
\<close>

record run =
  stdout :: "string list"
  stderr :: "string list"
  outcome :: "py_error + int"

definition main :: "(json \<Rightarrow> string) \<Rightarrow> string + json \<Rightarrow> run" where
  "main fmt resp =
     (case fetch_index resp of
        (err, data) \<Rightarrow>
          if \<not> truthy data then \<lparr>stdout = [], stderr = err, outcome = Inr 1\<rparr>
          else
            (case dict_get data ''subregions'' (JArr []) of
               Inl e \<Rightarrow> \<lparr>stdout = [], stderr = err, outcome = Inl e\<rparr>
             | Inr v \<Rightarrow>
                 (case py_iter v of
                    Inl e \<Rightarrow> \<lparr>stdout = [], stderr = err, outcome = Inl e\<rparr>
                  | Inr regions \<Rightarrow>
                      (case walk_each fmt regions 0 [] of
                         (out, Some e) \<Rightarrow> \<lparr>stdout = out, stderr = err, outcome = Inl e\<rparr>
                       | (out, None) \<Rightarrow> \<lparr>stdout = out, stderr = err, outcome = Inr 0\<rparr>))))"

subsection \<open>The region tree of a document\<close>

text \<open>
  A region node is a dict. Its path counts when it is a string and not empty;
  \<open>walk\<close> prints nothing for an absent path, for \<open>null\<close> and for the empty string
  alike. Its children are the elements of its \<open>subregions\<close> list, and there are none
  when the key is absent.
\<close>

definition path_of :: "json \<Rightarrow> string option" where
  "path_of n =
     (case dict_get n ''path'' JNull of
        Inr (JStr s) \<Rightarrow> if s = [] then None else Some s
      | _ \<Rightarrow> None)"

definition children :: "json \<Rightarrow> json list" where
  "children n =
     (case dict_get n ''subregions'' (JArr []) of
        Inr (JArr subs) \<Rightarrow> subs
      | _ \<Rightarrow> [])"

lemma children_weight: "c \<in> set (children n) \<Longrightarrow> weight c < weight n"
proof -
  assume c: "c \<in> set (children n)"
  then obtain kvs subs where n: "n = JObj kvs" and m: "map_of kvs ''subregions'' = Some (JArr subs)"
    and cs: "c \<in> set subs"
    by (auto simp: children_def dict_get_def split: json.splits option.splits sum.splits)
  have "weight c < weight (JArr subs)"
    using cs by (induction subs) auto
  also have "\<dots> < weight (JObj kvs)" using m by (rule map_of_weight)
  finally show ?thesis using n by simp
qed

text \<open>
  A well-formed node: a dict whose path, if present, is \<open>null\<close> or a string, and whose
  \<open>subregions\<close>, if present, is a list of well-formed nodes.
\<close>

function wf_region :: "json \<Rightarrow> bool" where
  "wf_region n =
     ((case dict_get n ''path'' JNull of
         Inr JNull \<Rightarrow> True
       | Inr (JStr s) \<Rightarrow> True
       | _ \<Rightarrow> False) \<and>
      (case dict_get n ''subregions'' (JArr []) of
         Inr (JArr subs) \<Rightarrow> True
       | _ \<Rightarrow> False) \<and>
      list_all wf_region (children n))"
  by pat_completeness auto
termination
  by (relation "measure weight") (auto dest: children_weight)

declare wf_region.simps [simp del]

text \<open>
  The nodes whose \<open>subregions\<close> entries can all be iterated without an exception: the
  entry is absent, a list of such nodes, or an empty string or an empty dict, which a
  loop iterates zero times.
\<close>

function walkable :: "json \<Rightarrow> bool" where
  "walkable n =
     ((case dict_get n ''subregions'' (JArr []) of
         Inr (JArr subs) \<Rightarrow> True
       | Inr (JStr s) \<Rightarrow> s = []
       | Inr (JObj kvs) \<Rightarrow> kvs = []
       | _ \<Rightarrow> False) \<and>
      list_all walkable (children n))"
  by pat_completeness auto
termination
  by (relation "measure weight") (auto dest: children_weight)

declare walkable.simps [simp del]

text \<open>
  The spec's RegionNode: an optional path, present only when not empty, and the ordered
  children. \<open>region_of\<close> reads the tree off a document node.
\<close>

datatype region = Region (node_path: "string option") (node_subregions: "region list")

function region_of :: "json \<Rightarrow> region" where
  "region_of n = Region (path_of n) (map region_of (children n))"
  by pat_completeness auto
termination
  by (relation "measure weight") (auto dest: children_weight)

declare region_of.simps [simp del]

text \<open>
  The spec's Visit and flatten, written from its words: a node with a path gives the
  record of its depth and path, then the records of its children follow in order, one
  level deeper; the top-level nodes are visited at depth 0.
\<close>

fun visit :: "region \<Rightarrow> nat \<Rightarrow> (nat \<times> string) list" where
  "visit (Region p cs) depth =
     (case p of Some s \<Rightarrow> [(depth, s)] | None \<Rightarrow> []) @
     concat (map (\<lambda>c. visit c (Suc depth)) cs)"

definition flatten :: "region list \<Rightarrow> (nat \<times> string) list" where
  "flatten rs = concat (map (\<lambda>r. visit r 0) rs)"

text \<open>The line \<open>walk\<close> prints for a record.\<close>

definition render :: "(json \<Rightarrow> string) \<Rightarrow> nat \<times> string \<Rightarrow> string" where
  "render fmt r = line fmt (int (fst r)) (JStr (snd r))"

text \<open>
  A position names a node by the indices that lead to it: \<open>[i]\<close> is the top-level
  node \<open>i\<close>, \<open>[i, j]\<close> its child \<open>j\<close>. The root container is no node and has no
  position. The ancestors of the node at \<open>p\<close> are the nodes at the proper prefixes of
  \<open>p\<close> that are not empty.
\<close>

fun sub_at :: "region \<Rightarrow> nat list \<Rightarrow> region option" where
  "sub_at r [] = Some r"
| "sub_at r (i # p) =
     (if i < length (node_subregions r) then sub_at (node_subregions r ! i) p else None)"

definition node_at :: "region list \<Rightarrow> nat list \<Rightarrow> region option" where
  "node_at rs p =
     (case p of
        [] \<Rightarrow> None
      | i # q \<Rightarrow> if i < length rs then sub_at (rs ! i) q else None)"

definition ancestors :: "nat list \<Rightarrow> nat list list" where
  "ancestors p = map (\<lambda>k. take k p) [1..<length p]"

text \<open>
  The positions of the nodes that have a path, listed as a depth-first walk in document
  order meets them; \<open>emit_from k\<close> numbers the nodes of a list from \<open>k\<close>.
\<close>

fun emit :: "region \<Rightarrow> nat list list"
  and emit_from :: "nat \<Rightarrow> region list \<Rightarrow> nat list list"
where
  "emit (Region p cs) = (case p of Some s \<Rightarrow> [[]] | None \<Rightarrow> []) @ emit_from 0 cs"
| "emit_from k [] = []"
| "emit_from k (c # cs) = map ((#) k) (emit c) @ emit_from (Suc k) cs"

definition record_positions :: "region list \<Rightarrow> nat list list" where
  "record_positions rs = emit_from 0 rs"

definition path_at :: "region option \<Rightarrow> string" where
  "path_at x = (case x of Some (Region (Some s) cs) \<Rightarrow> s | _ \<Rightarrow> [])"

definition before :: "nat list \<Rightarrow> nat list \<Rightarrow> bool" where
  "before p q = ((p, q) \<in> lexord {(i, j). i < j})"

definition line_at :: "(json \<Rightarrow> string) \<Rightarrow> region list \<Rightarrow> nat list \<Rightarrow> string" where
  "line_at fmt rs p = render fmt (length p - 1, path_at (node_at rs p))"

text \<open>The number of nodes of a tree that have a path.\<close>

fun path_count :: "region \<Rightarrow> nat" where
  "path_count (Region p cs) = (case p of Some s \<Rightarrow> 1 | None \<Rightarrow> 0) + sum_list (map path_count cs)"

text \<open>
  Scenario B of the spec: the document with the one top-level region \<open>europe\<close>, which
  has the one child \<open>europe/albania\<close>.
\<close>

definition europe :: json where
  "europe =
     JObj [(''path'', JStr ''europe''),
           (''subregions'', JArr [JObj [(''path'', JStr ''europe/albania''), (''subregions'', JArr [])]])]"

definition scenario_b :: json where
  "scenario_b = JObj [(''subregions'', JArr [europe])]"

text \<open>
  Scenario C of the spec: a node without a path that groups the two nodes \<open>a\<close> and
  \<open>b\<close>, neither of which has a \<open>subregions\<close> entry.
\<close>

definition grouping :: json where
  "grouping = JObj [(''subregions'', JArr [JObj [(''path'', JStr ''a'')], JObj [(''path'', JStr ''b'')]])]"

text \<open>
  The concrete runs below print string paths only, so \<open>fmt\<close> is never called in
  them; they fix it to this constant function.
\<close>

definition str_unused :: "json \<Rightarrow> string" where
  "str_unused v = []"

subsection \<open>walk on the objects of the interpreter\<close>

text \<open>
  In the interpreter a dict and a list are mutable objects that a value refers to, and
  \<open>walk\<close> is handed such a reference. This second model of \<open>walk\<close> keeps the
  objects in a store, so that a change of the document by \<open>walk\<close> could be told from
  none. \<open>VRef a\<close> refers to the object in cell \<open>a\<close>; \<open>VEmptyList\<close> is the new
  empty list that the default argument \<^verbatim>\<open>[]\<close> creates, which no cell of the
  document refers to.
\<close>

datatype pval =
    VNone
  | VBool bool
  | VInt int
  | VFloat pyfloat
  | VStr string
  | VRef nat
  | VEmptyList

datatype pobj = OList "pval list" | ODict "(string \<times> pval) list"

type_synonym store = "nat \<Rightarrow> pobj option"

text \<open>The truth value, \<open>get\<close> and the printed line read the store.\<close>

fun truthy_st :: "store \<Rightarrow> pval \<Rightarrow> bool" where
  "truthy_st h VNone = False"
| "truthy_st h (VBool b) = b"
| "truthy_st h (VInt i) = (i \<noteq> 0)"
| "truthy_st h (VFloat f) = (case f of Finite m e \<Rightarrow> m \<noteq> 0 | _ \<Rightarrow> True)"
| "truthy_st h (VStr s) = (s \<noteq> [])"
| "truthy_st h (VRef a) =
     (case h a of Some (OList vs) \<Rightarrow> vs \<noteq> [] | Some (ODict kvs) \<Rightarrow> kvs \<noteq> [] | None \<Rightarrow> False)"
| "truthy_st h VEmptyList = False"

definition get_st :: "store \<Rightarrow> pval \<Rightarrow> string \<Rightarrow> pval \<Rightarrow> py_error + pval" where
  "get_st h d k dflt =
     (case d of
        VRef a \<Rightarrow>
          (case h a of
             Some (ODict kvs) \<Rightarrow> Inr (case map_of kvs k of None \<Rightarrow> dflt | Some v \<Rightarrow> v)
           | _ \<Rightarrow> Inl AttributeError)
      | _ \<Rightarrow> Inl AttributeError)"

text \<open>
  The iterator of a \<open>for\<close> loop. Over a list it is the list's cell and an index, and
  every step reads the list anew, as the interpreter does: a list that the loop body
  changed would be seen changed. The keys of a dict and the characters of a string are
  taken once (a dict that changes size under iteration raises in the interpreter, which
  cannot come about here: \<open>walk\<close> on a key raises at once).
\<close>

datatype iter = ListIter nat nat | ItemsIter "pval list"

definition iter_st :: "store \<Rightarrow> pval \<Rightarrow> py_error + iter" where
  "iter_st h v =
     (case v of
        VRef a \<Rightarrow>
          (case h a of
             Some (OList vs) \<Rightarrow> Inr (ListIter a 0)
           | Some (ODict kvs) \<Rightarrow> Inr (ItemsIter (map (\<lambda>kv. VStr (fst kv)) kvs))
           | None \<Rightarrow> Inl TypeError)
      | VStr s \<Rightarrow> Inr (ItemsIter (map (\<lambda>c. VStr [c]) s))
      | VEmptyList \<Rightarrow> Inr (ItemsIter [])
      | _ \<Rightarrow> Inl TypeError)"

fun next_st :: "store \<Rightarrow> iter \<Rightarrow> (pval \<times> iter) option" where
  "next_st h (ListIter a i) =
     (case h a of
        Some (OList vs) \<Rightarrow> if i < length vs then Some (vs ! i, ListIter a (Suc i)) else None
      | _ \<Rightarrow> None)"
| "next_st h (ItemsIter []) = None"
| "next_st h (ItemsIter (v # vs)) = Some (v, ItemsIter vs)"

definition line_st :: "(store \<Rightarrow> pval \<Rightarrow> string) \<Rightarrow> store \<Rightarrow> int \<Rightarrow> pval \<Rightarrow> string" where
  "line_st sfmt h indent path =
     concat (replicate (nat indent) ''  '') @ ''- '' @
     (case path of VStr s \<Rightarrow> s | _ \<Rightarrow> sfmt h path)"

text \<open>
  The same statements as in \<open>walk\<close>, on the store. Every call returns the store it
  leaves behind, and the call after it goes on from that store. A store may hold a cycle,
  on which the recursion does not end; the fuel bounds the depth of the calls, and
  \<open>None\<close> is a run that did not end within it.
\<close>

fun walk_st :: "(store \<Rightarrow> pval \<Rightarrow> string) \<Rightarrow> nat \<Rightarrow> store \<Rightarrow> pval \<Rightarrow> int \<Rightarrow> string list
      \<Rightarrow> (store \<times> string list \<times> py_error option) option"
  and loop_st :: "(store \<Rightarrow> pval \<Rightarrow> string) \<Rightarrow> nat \<Rightarrow> store \<Rightarrow> iter \<Rightarrow> int \<Rightarrow> string list
      \<Rightarrow> (store \<times> string list \<times> py_error option) option"
where
  "walk_st sfmt 0 h region indent out = None"
| "walk_st sfmt (Suc fuel) h region indent out =
     (case get_st h region ''path'' VNone of
        Inl e \<Rightarrow> Some (h, out, Some e)
      | Inr path \<Rightarrow>
          (let out1 = (if truthy_st h path then out @ [line_st sfmt h indent path] else out)
           in case get_st h region ''subregions'' VEmptyList of
                Inl e \<Rightarrow> Some (h, out1, Some e)
              | Inr v \<Rightarrow>
                  (case iter_st h v of
                     Inl e \<Rightarrow> Some (h, out1, Some e)
                   | Inr it \<Rightarrow> loop_st sfmt fuel h it (indent + 1) out1)))"
| "loop_st sfmt 0 h it indent out = None"
| "loop_st sfmt (Suc fuel) h it indent out =
     (case next_st h it of
        None \<Rightarrow> Some (h, out, None)
      | Some (sub, it') \<Rightarrow>
          (case walk_st sfmt fuel h sub indent out of
             None \<Rightarrow> None
           | Some (h1, out1, Some e) \<Rightarrow> Some (h1, out1, Some e)
           | Some (h1, out1, None) \<Rightarrow> loop_st sfmt fuel h1 it' indent out1))"

text \<open>
  A value of the store represents a JSON document when the objects it reaches hold that
  document.
\<close>

inductive represents :: "store \<Rightarrow> pval \<Rightarrow> json \<Rightarrow> bool" for h :: store where
  rep_none: "represents h VNone JNull"
| rep_bool: "represents h (VBool b) (JBool b)"
| rep_int: "represents h (VInt i) (JInt i)"
| rep_float: "represents h (VFloat f) (JFloat f)"
| rep_str: "represents h (VStr s) (JStr s)"
| rep_list: "h a = Some (OList vs) \<Longrightarrow> list_all2 (represents h) vs js \<Longrightarrow>
     represents h (VRef a) (JArr js)"
| rep_dict: "h a = Some (ODict kvs) \<Longrightarrow> map fst kvs = map fst kjs \<Longrightarrow>
     list_all2 (represents h) (map snd kvs) (map snd kjs) \<Longrightarrow>
     represents h (VRef a) (JObj kjs)"

text \<open>The objects of Scenario B's region \<open>europe\<close>, in four cells.\<close>

definition europe_store :: store where
  "europe_store =
     [10 \<mapsto> ODict [(''path'', VStr ''europe''), (''subregions'', VRef 11)],
      11 \<mapsto> OList [VRef 12],
      12 \<mapsto> ODict [(''path'', VStr ''europe/albania''), (''subregions'', VRef 13)],
      13 \<mapsto> OList []]"

definition str_st_unused :: "store \<Rightarrow> pval \<Rightarrow> string" where
  "str_st_unused h v = []"

section \<open>Properties of the model\<close>

subsection \<open>The printed lines do not depend on what was printed before\<close>

lemma walk_unfold:
  assumes "dict_get region ''path'' JNull = Inr path"
    and "dict_get region ''subregions'' (JArr []) = Inr v"
    and "py_iter v = Inr subs"
  shows "walk fmt region indent o2 =
    walk_each fmt subs (indent + 1) (if truthy path then o2 @ [line fmt indent path] else o2)"
  apply (subst walk.simps)
  apply (simp only: assms sum.case Let_def)
  done

lemma walk_out_aux:
  fixes out :: "string list"
  shows "(\<forall>o1. walk fmt region indent o1 =
      (o1 @ fst (walk fmt region indent []), snd (walk fmt region indent [])))"
  and "(\<forall>o1. walk_each fmt subs indent o1 =
      (o1 @ fst (walk_each fmt subs indent []), snd (walk_each fmt subs indent [])))"
proof (induction fmt region indent out and fmt subs indent out rule: walk_walk_each.induct)
  case (1 fmt region indent out)
  show ?case
  proof
    fix o1
    show "walk fmt region indent o1 =
      (o1 @ fst (walk fmt region indent []), snd (walk fmt region indent []))"
    proof (cases "dict_get region ''path'' JNull")
      case (Inl e)
      then show ?thesis by (simp add: walk.simps)
    next
      case path: (Inr path)
      show ?thesis
      proof (cases "dict_get region ''subregions'' (JArr [])")
        case (Inl e)
        then show ?thesis using path by (simp add: walk.simps)
      next
        case v: (Inr v)
        show ?thesis
        proof (cases "py_iter v")
          case (Inl e)
          then show ?thesis using path v by (simp add: walk.simps)
        next
          case subs: (Inr subs)
          note ih = 1 [OF path refl v subs, rule_format]
          have unf: "\<And>o2. walk fmt region indent o2 =
            walk_each fmt subs (indent + 1) (if truthy path then o2 @ [line fmt indent path] else o2)"
            using path v subs by (rule walk_unfold)
          show ?thesis
          proof (cases "truthy path")
            case True
            then show ?thesis
              unfolding unf
              by (simp add: ih [of "o1 @ [line fmt indent path]"]
                ih [of "[line fmt indent path]"])
          next
            case False
            then show ?thesis
              unfolding unf by (simp add: ih [of o1])
          qed
        qed
      qed
    qed
  qed
next
  case (2 fmt indent out)
  show ?case by simp
next
  case (3 fmt sub subs indent out)
  show ?case
  proof
    fix o1
    note p = 3(1) [rule_format]
    show "walk_each fmt (sub # subs) indent o1 =
      (o1 @ fst (walk_each fmt (sub # subs) indent []), snd (walk_each fmt (sub # subs) indent []))"
    proof (cases "snd (walk fmt sub indent [])")
      case (Some e)
      then show ?thesis
        by (simp add: p [of o1] split: prod.splits) (simp add: prod_eq_iff)
    next
      case None
      then have "snd (walk fmt sub indent out) = None" by (subst p) simp
      then have "(fst (walk fmt sub indent out), None) = walk fmt sub indent out"
        by (simp add: prod_eq_iff)
      note q = 3(2) [OF this refl, rule_format]
      let ?F = "fst (walk fmt sub indent [])"
      have w0: "walk fmt sub indent [] = (?F, None)"
        using None by (simp add: prod_eq_iff)
      have w1: "walk fmt sub indent o1 = (o1 @ ?F, None)"
        using p [of o1] None by simp
      have e1: "walk_each fmt (sub # subs) indent o1 = walk_each fmt subs indent (o1 @ ?F)"
        by (simp add: w1)
      have e0: "walk_each fmt (sub # subs) indent [] = walk_each fmt subs indent ?F"
        by (subst walk_each.simps, subst w0) simp
      show ?thesis
        unfolding e1 e0 by (simp add: q [of "o1 @ ?F"] q [of ?F])
    qed
  qed
qed

lemma walk_out:
  "walk fmt region indent out =
     (out @ fst (walk fmt region indent []), snd (walk fmt region indent []))"
  using walk_out_aux(1) [of fmt region indent] by blast

lemma walk_each_out:
  "walk_each fmt subs indent out =
     (out @ fst (walk_each fmt subs indent []), snd (walk_each fmt subs indent []))"
  using walk_out_aux(2) [of fmt subs indent] by blast

subsection \<open>walk on a well-formed tree prints the spec's records\<close>

lemma render_pair: "render fmt (d, s) = line fmt (int d) (JStr s)"
  by (simp add: render_def)

lemma walk_each_all:
  assumes "\<And>c out. c \<in> set cs \<Longrightarrow> walk fmt c indent out = (out @ L c, None)"
  shows "walk_each fmt cs indent out = (out @ concat (map L cs), None)"
  using assms by (induction cs arbitrary: out) simp_all

lemma walk_wf:
  "wf_region n \<Longrightarrow>
   walk fmt n (int d) out = (out @ map (render fmt) (visit (region_of n) d), None)"
proof (induction n arbitrary: d out rule: measure_induct_rule [where f = weight])
  case (less n)
  from less.prems have wf: "list_all wf_region (children n)"
    by (simp add: wf_region.simps)
  from less.prems obtain kvs where n: "n = JObj kvs"
    by (auto simp: wf_region.simps dict_get_def split: json.splits)
  from less.prems have it: "py_iter (case map_of kvs ''subregions'' of None \<Rightarrow> JArr [] | Some v \<Rightarrow> v)
      = Inr (children n)"
    unfolding n
    by (auto simp: wf_region.simps [of "JObj kvs"] children_def dict_get_def py_iter_def
        split: json.splits option.splits)
  from less.prems have pt: "\<And>v. map_of kvs ''path'' = Some v \<Longrightarrow> v = JNull \<or> (\<exists>s. v = JStr s)"
    unfolding n
    by (auto simp: wf_region.simps [of "JObj kvs"] dict_get_def split: json.splits option.splits)
  have each: "\<And>out'. walk_each fmt (children n) (int d + 1) out' =
      (out' @ concat (map (\<lambda>c. map (render fmt) (visit (region_of c) (Suc d))) (children n)), None)"
  proof (rule walk_each_all)
    fix c out'' assume c: "c \<in> set (children n)"
    then have "weight c < weight n" by (rule children_weight)
    moreover from c wf have "wf_region c" by (simp add: list_all_iff)
    ultimately have "walk fmt c (int (Suc d)) out'' =
        (out'' @ map (render fmt) (visit (region_of c) (Suc d)), None)"
      by (rule less.IH)
    then show "walk fmt c (int d + 1) out'' =
        (out'' @ map (render fmt) (visit (region_of c) (Suc d)), None)"
      by (simp add: add.commute)
  qed
  have vis: "visit (region_of n) d =
      (case path_of n of Some s \<Rightarrow> [(d, s)] | None \<Rightarrow> []) @
      concat (map (\<lambda>c. visit (region_of c) (Suc d)) (children n))"
    by (subst region_of.simps) (simp add: comp_def)
  show ?case
  proof (cases "map_of kvs ''path''")
    case None
    then show ?thesis
      using it each
      by (simp add: n walk.simps [of fmt "JObj kvs"] dict_get_def vis [unfolded n] path_of_def
          map_concat comp_def)
  next
    case (Some v)
    with pt have "v = JNull \<or> (\<exists>s. v = JStr s)" by simp
    then show ?thesis
      using it each Some
      by (auto simp: n walk.simps [of fmt "JObj kvs"] dict_get_def vis [unfolded n] path_of_def
          map_concat comp_def render_pair)
  qed
qed

lemma walk_node:
  assumes "wf_region n"
  shows "walk fmt n indent out =
    walk_each fmt (children n) (indent + 1)
      (case path_of n of None \<Rightarrow> out | Some s \<Rightarrow> out @ [line fmt indent (JStr s)])"
proof -
  from assms obtain kvs where n: "n = JObj kvs"
    by (auto simp: wf_region.simps dict_get_def split: json.splits)
  obtain path where path: "dict_get n ''path'' JNull = Inr path"
    by (simp add: n dict_get_def)
  from assms path have pt: "path = JNull \<or> (\<exists>s. path = JStr s)"
    by (auto simp: wf_region.simps [of n] split: json.splits)
  from assms obtain subs where v: "dict_get n ''subregions'' (JArr []) = Inr (JArr subs)"
    by (auto simp: wf_region.simps [of n] split: json.splits sum.splits)
  then have ch: "children n = subs" by (simp add: children_def)
  have "py_iter (JArr subs) = Inr subs" by (simp add: py_iter_def)
  from walk_unfold [OF path v this]
  show ?thesis using pt path by (auto simp: ch path_of_def)
qed

lemma walk_each_wf:
  assumes "list_all wf_region docs"
  shows "walk_each fmt docs (int d) out =
    (out @ map (render fmt) (concat (map (\<lambda>r. visit r d) (map region_of docs))), None)"
proof -
  have "walk_each fmt docs (int d) out =
      (out @ concat (map (\<lambda>c. map (render fmt) (visit (region_of c) d)) docs), None)"
    by (rule walk_each_all) (use assms in \<open>simp add: list_all_iff walk_wf\<close>)
  then show ?thesis by (simp add: map_concat comp_def)
qed

subsection \<open>Positions\<close>

lemma visit_emit_aux:
  "(\<forall>d. visit r d = map (\<lambda>q. (d + length q, path_at (sub_at r q))) (emit r))"
  "(\<forall>d pre x. length pre = k \<longrightarrow>
      concat (map (\<lambda>c. visit c d) cs) =
      map (\<lambda>q. (d + length q - 1, path_at (sub_at (Region x (pre @ cs)) q))) (emit_from k cs))"
proof (induction r and k cs rule: emit_emit_from.induct)
  case (1 p cs)
  show ?case
  proof
    fix d
    have "length ([] :: region list) = 0" by simp
    from 1 [rule_format, OF this, of "Suc d" p]
    show "visit (Region p cs) d = map (\<lambda>q. (d + length q, path_at (sub_at (Region p cs) q))) (emit (Region p cs))"
      by (cases p) (simp_all add: path_at_def)
  qed
next
  case (2 k)
  then show ?case by simp
next
  case (3 k c cs)
  show ?case
  proof (intro allI impI)
    fix d and pre :: "region list" and x assume len: "length pre = k"
    have a: "visit c d = map (\<lambda>q. (d + length q, path_at (sub_at c q))) (emit c)"
      using 3(1) by simp
    have b: "concat (map (\<lambda>c. visit c d) cs) =
      map (\<lambda>q. (d + length q - 1, path_at (sub_at (Region x ((pre @ [c]) @ cs)) q))) (emit_from (Suc k) cs)"
    proof -
      have "length (pre @ [c]) = Suc k" using len by simp
      from 3(2) [rule_format, OF this] show ?thesis by simp
    qed
    show "concat (map (\<lambda>c. visit c d) (c # cs)) =
      map (\<lambda>q. (d + length q - 1, path_at (sub_at (Region x (pre @ c # cs)) q))) (emit_from k (c # cs))"
      using a b len by (simp add: comp_def nth_append)
  qed
qed

lemma emit_from_heads: "p \<in> set (emit_from k cs) \<Longrightarrow> \<exists>i q. p = i # q \<and> k \<le> i"
proof (induction cs arbitrary: k)
  case Nil
  then show ?case by simp
next
  case (Cons c cs)
  then show ?case by (fastforce dest: Cons.IH)
qed

lemma emit_set_aux:
  "(\<forall>q. q \<in> set (emit r) \<longleftrightarrow> (\<exists>n s. sub_at r q = Some n \<and> node_path n = Some s))"
  "(\<forall>q pre x. length pre = k \<longrightarrow>
      (q \<in> set (emit_from k cs) \<longleftrightarrow>
        (\<exists>i t n s. q = i # t \<and> k \<le> i \<and> sub_at (Region x (pre @ cs)) q = Some n \<and> node_path n = Some s)))"
proof (induction r and k cs rule: emit_emit_from.induct)
  case (1 p cs)
  show ?case
  proof (intro allI)
    fix q
    show "q \<in> set (emit (Region p cs)) \<longleftrightarrow> (\<exists>n s. sub_at (Region p cs) q = Some n \<and> node_path n = Some s)"
    proof (cases q)
      case Nil
      then show ?thesis by (cases p) (auto dest: emit_from_heads)
    next
      case (Cons i t)
      have "q \<in> set (emit (Region p cs)) \<longleftrightarrow> q \<in> set (emit_from 0 cs)"
        using Cons by (cases p) auto
      also have "\<dots> \<longleftrightarrow> (\<exists>n s. sub_at (Region p cs) q = Some n \<and> node_path n = Some s)"
      proof -
        have "length ([] :: region list) = 0" by simp
        from 1 [rule_format, OF this, of q p] show ?thesis using Cons by simp
      qed
      finally show ?thesis .
    qed
  qed
next
  case (2 k)
  then show ?case by (auto split: if_splits)
next
  case (3 k c cs)
  show ?case
  proof (intro allI impI)
    fix q and pre :: "region list" and x assume len: "length pre = k"
    have a: "\<And>t. t \<in> set (emit c) \<longleftrightarrow> (\<exists>n s. sub_at c t = Some n \<and> node_path n = Some s)"
      using 3(1) by simp
    have b: "q \<in> set (emit_from (Suc k) cs) \<longleftrightarrow>
        (\<exists>i t n s. q = i # t \<and> Suc k \<le> i \<and> sub_at (Region x (pre @ c # cs)) q = Some n \<and> node_path n = Some s)"
    proof -
      have "length (pre @ [c]) = Suc k" using len by simp
      from 3(2) [rule_format, OF this] show ?thesis by simp
    qed
    show "q \<in> set (emit_from k (c # cs)) \<longleftrightarrow>
        (\<exists>i t n s. q = i # t \<and> k \<le> i \<and> sub_at (Region x (pre @ c # cs)) q = Some n \<and> node_path n = Some s)"
    proof (cases q)
      case Nil
      then show ?thesis using b by auto
    next
      case (Cons i t)
      show ?thesis
      proof (cases "i = k")
        case True
        then show ?thesis using Cons a len b by (auto simp: nth_append)
      next
        case False
        then have "q \<in> set (emit_from k (c # cs)) \<longleftrightarrow> q \<in> set (emit_from (Suc k) cs)"
          using Cons by auto
        also have "\<dots> \<longleftrightarrow> (\<exists>i t n s. q = i # t \<and> k \<le> i \<and> sub_at (Region x (pre @ c # cs)) q = Some n \<and> node_path n = Some s)"
          using b Cons False by auto
        finally show ?thesis .
      qed
    qed
  qed
qed

lemma before_Cons: "before (i # p) (j # q) = (i < j \<or> (i = j \<and> before p q))"
  by (simp add: before_def)

lemma before_Nil: "before [] (j # q)"
  by (simp add: before_def)

lemma before_asym: "before p q \<Longrightarrow> \<not> before q p"
  unfolding before_def
  by (rule lexord_asymmetric [rotated]) (auto intro: asymI)

lemma before_irrefl: "\<not> before p p"
  using before_asym by blast

lemma before_prefix: "strict_prefix p q \<Longrightarrow> before p q"
  unfolding before_def
  by (auto simp: strict_prefix_def prefix_def intro!: lexord_append_rightI) (metis neq_Nil_conv)

lemma before_siblings: "i < j \<Longrightarrow> before (r @ i # xs) (r @ j # ys)"
  unfolding before_def by (rule lexord_append_left_rightI) simp

lemma emit_sorted_aux:
  "sorted_wrt before (emit r)"
  "sorted_wrt before (emit_from k cs)"
proof (induction r and k cs rule: emit_emit_from.induct)
  case (1 p cs)
  then show ?case
    by (cases p) (auto simp: sorted_wrt_append before_Nil dest: emit_from_heads)
next
  case (2 k)
  then show ?case by simp
next
  case (3 k c cs)
  then show ?case
    by (auto simp: sorted_wrt_append sorted_wrt_map before_Cons dest: emit_from_heads)
qed

lemma sorted_before_distinct: "sorted_wrt before ps \<Longrightarrow> distinct ps"
  by (induction ps) (auto simp: before_irrefl)

lemma sorted_before_index:
  assumes "sorted_wrt before ps" "a < length ps" "b < length ps" "before (ps ! a) (ps ! b)"
  shows "a < b"
proof (rule ccontr)
  assume "\<not> a < b"
  then consider "a = b" | "b < a" by linarith
  then show False
  proof cases
    case 1
    with assms(4) show False by (simp add: before_irrefl)
  next
    case 2
    with assms(1,2) have "before (ps ! b) (ps ! a)" by (simp add: sorted_wrt_nth_less)
    with assms(4) show False by (blast dest: before_asym)
  qed
qed

lemma positions_sorted: "sorted_wrt before (record_positions rs)"
  by (simp add: record_positions_def emit_sorted_aux)

lemma positions_distinct: "distinct (record_positions rs)"
  by (rule sorted_before_distinct) (rule positions_sorted)

lemma positions_set:
  "p \<in> set (record_positions rs) \<longleftrightarrow> (\<exists>n s. node_at rs p = Some n \<and> node_path n = Some s)"
proof -
  have "length ([] :: region list) = 0" by simp
  from emit_set_aux(2) [rule_format, OF this, of p rs None]
  show ?thesis
    by (cases p) (auto simp: record_positions_def node_at_def split: if_splits)
qed

lemma flatten_positions:
  "flatten rs = map (\<lambda>p. (length p - 1, path_at (node_at rs p))) (record_positions rs)"
proof -
  have "length ([] :: region list) = 0" by simp
  from visit_emit_aux(2) [rule_format, OF this, of 0 rs None]
  have "flatten rs = map (\<lambda>q. (0 + length q - 1, path_at (sub_at (Region None rs) q))) (emit_from 0 rs)"
    by (simp add: flatten_def)
  also have "\<dots> = map (\<lambda>p. (length p - 1, path_at (node_at rs p))) (emit_from 0 rs)"
    by (rule map_cong) (auto simp: node_at_def dest: emit_from_heads)
  finally show ?thesis by (simp add: record_positions_def)
qed

lemma walk_each_lines:
  assumes "list_all wf_region docs"
  shows "walk_each fmt docs 0 [] =
    (map (line_at fmt (map region_of docs)) (record_positions (map region_of docs)), None)"
proof -
  have "walk_each fmt docs (int 0) [] = ([] @ map (render fmt) (flatten (map region_of docs)), None)"
    unfolding flatten_def using assms by (rule walk_each_wf)
  then show ?thesis
    by (simp add: flatten_positions comp_def line_at_def)
qed

lemma length_ancestors: "length (ancestors p) = length p - 1"
  by (simp add: ancestors_def)

lemma sub_at_take: "sub_at r q = Some n \<Longrightarrow> \<exists>m. sub_at r (take k q) = Some m"
proof (induction q arbitrary: r k)
  case Nil
  then show ?case by simp
next
  case (Cons i q)
  then show ?case by (cases k) (auto split: if_splits)
qed

lemma node_at_ancestors:
  assumes "node_at rs p = Some n"
  shows "list_all (\<lambda>q. node_at rs q \<noteq> None) (ancestors p)"
proof -
  have "node_at rs (take k p) \<noteq> None" if "1 \<le> k" for k
  proof (cases p)
    case Nil
    with assms show ?thesis by (simp add: node_at_def)
  next
    case (Cons i q)
    from that obtain k' where k: "k = Suc k'" by (cases k) auto
    from assms Cons have "i < length rs" "sub_at (rs ! i) q = Some n"
      by (auto simp: node_at_def split: if_splits)
    then show ?thesis using sub_at_take [of "rs ! i" q n k'] Cons k
      by (auto simp: node_at_def)
  qed
  then show ?thesis by (auto simp: list_all_iff ancestors_def)
qed

lemma path_at_Some: "node_path n = Some s \<Longrightarrow> path_at (Some n) = s"
  by (cases n) (simp add: path_at_def)

lemma count_list_distinct: "distinct xs \<Longrightarrow> x \<in> set xs \<Longrightarrow> count_list xs x = 1"
  by (induction xs) auto

lemma length_visit: "length (visit r d) = path_count r"
proof (induction r arbitrary: d)
  case (Region p cs)
  have "(\<Sum>c\<leftarrow>cs. length (visit c (Suc d))) = (\<Sum>c\<leftarrow>cs. path_count c)"
    by (rule arg_cong [where f = sum_list]) (simp add: Region)
  then show ?case by (cases p) (simp_all add: length_concat comp_def)
qed

subsection \<open>Scenario B, evaluated\<close>

lemma wf_europe: "list_all wf_region [europe]"
  by (simp add: europe_def wf_region.simps children_def dict_get_def)

lemma region_of_europe:
  "region_of europe = Region (Some ''europe'') [Region (Some ''europe/albania'') []]"
  by (simp add: europe_def region_of.simps children_def path_of_def dict_get_def)

lemma positions_europe:
  "record_positions [Region (Some ''europe'') [Region (Some ''europe/albania'') []]] = [[0], [0, 0]]"
  by (simp add: record_positions_def)

lemma walk_each_europe:
  "walk_each fmt [europe] 0 [] = ([''- europe'', ''  - europe/albania''], None)"
  by (simp add: walk_each_lines [OF wf_europe] region_of_europe positions_europe line_at_def
      render_def node_at_def path_at_def line_def py_format_def del: walk_each.simps)

lemma wf_grouping: "list_all wf_region [grouping]"
  by (simp add: grouping_def wf_region.simps children_def dict_get_def)

lemma region_of_grouping:
  "region_of grouping = Region None [Region (Some ''a'') [], Region (Some ''b'') []]"
  by (simp add: grouping_def region_of.simps children_def path_of_def dict_get_def)

lemma positions_grouping:
  "record_positions [Region None [Region (Some ''a'') [], Region (Some ''b'') []]] = [[0, 0], [0, 1]]"
  by (simp add: record_positions_def)

lemma line_spaces: "line fmt (int d) (JStr s) = replicate (2 * d) (CHR '' '') @ ''- '' @ s"
proof -
  have "concat (replicate d ''  '') = replicate (2 * d) (CHR '' '')"
    by (induction d) simp_all
  then show ?thesis by (simp add: line_def py_format_def)
qed

subsection \<open>When walk raises\<close>

lemma walk_each_ok:
  "snd (walk_each fmt cs indent out) = None \<longleftrightarrow> (\<forall>c\<in>set cs. snd (walk fmt c indent []) = None)"
proof (induction cs arbitrary: out)
  case Nil
  then show ?case by simp
next
  case (Cons c cs)
  show ?case
  proof (cases "snd (walk fmt c indent [])")
    case None
    have "walk fmt c indent out = (out @ fst (walk fmt c indent []), None)"
      by (subst walk_out) (simp add: None)
    then show ?thesis using Cons.IH None by simp
  next
    case (Some e)
    have "walk fmt c indent out = (out @ fst (walk fmt c indent []), Some e)"
      by (subst walk_out) (simp add: Some)
    then show ?thesis using Some by simp
  qed
qed

lemma walk_not_dict:
  "dict_get n ''path'' JNull = Inl e \<Longrightarrow> walk fmt n indent out = (out, Some AttributeError)"
  by (subst walk.simps) (auto simp: dict_get_def split: json.splits)

lemma walk_str: "walk fmt (JStr s) indent out = (out, Some AttributeError)"
  by (rule walk_not_dict [where e = AttributeError]) (simp add: dict_get_def)

lemma walk_ok_iff: "snd (walk fmt n indent out) = None \<longleftrightarrow> walkable n"
proof (induction n arbitrary: indent out rule: measure_induct_rule [where f = weight])
  case (less n)
  show ?case
  proof (cases n)
    case (JObj kvs)
    obtain path where path: "dict_get n ''path'' JNull = Inr path"
      by (simp add: JObj dict_get_def)
    obtain v where v: "dict_get n ''subregions'' (JArr []) = Inr v"
      by (simp add: JObj dict_get_def)
    let ?out1 = "if truthy path then out @ [line fmt indent path] else out"
    show ?thesis
    proof (cases "py_iter v")
      case (Inl e)
      then have "walk fmt n indent out = (?out1, Some e)"
        by (subst walk.simps) (simp only: path v sum.case Let_def)
      moreover from Inl have "\<not> walkable n"
        by (subst walkable.simps) (auto simp: v py_iter_def split: json.splits)
      ultimately show ?thesis by simp
    next
      case (Inr subs)
      from walk_unfold [OF path v Inr]
      have w: "snd (walk fmt n indent out) = None \<longleftrightarrow>
          (\<forall>c\<in>set subs. snd (walk fmt c (indent + 1) []) = None)"
        by (simp add: walk_each_ok)
      show ?thesis
      proof (cases v)
        case (JArr xs)
        with Inr have subs: "subs = xs" by (simp add: py_iter_def)
        have ch: "children n = xs" by (simp add: children_def v JArr)
        have "\<And>c. c \<in> set xs \<Longrightarrow> snd (walk fmt c (indent + 1) []) = None \<longleftrightarrow> walkable c"
          by (rule less.IH) (simp add: children_weight ch)
        then show ?thesis
          unfolding w subs
          by (subst walkable.simps) (simp add: v JArr ch list_all_iff)
      next
        case (JStr s)
        with Inr have subs: "subs = map (\<lambda>c. JStr [c]) s" by (simp add: py_iter_def)
        have ch: "children n = []" by (simp add: children_def v JStr)
        show ?thesis
          unfolding w subs
          by (subst walkable.simps) (auto simp: v JStr ch walk_str)
      next
        case inner: (JObj kvs')
        with Inr have subs: "subs = map (\<lambda>kv. JStr (fst kv)) kvs'" by (simp add: py_iter_def)
        have ch: "children n = []" by (simp add: children_def v inner)
        show ?thesis
          unfolding w subs
          by (subst walkable.simps) (cases kvs'; auto simp: v inner ch walk_str)
      qed (use Inr in \<open>simp_all add: py_iter_def\<close>)
    qed
  qed (simp_all add: walk.simps walkable.simps dict_get_def)
qed

subsection \<open>The loop of main\<close>

lemma main_loop:
  assumes "truthy root"
    and "dict_get root ''subregions'' (JArr []) = Inr v"
    and "py_iter v = Inr regions"
  shows "main fmt (Inr root) =
    (case walk_each fmt regions 0 [] of
       (out, Some e) \<Rightarrow> \<lparr>stdout = out, stderr = [], outcome = Inl e\<rparr>
     | (out, None) \<Rightarrow> \<lparr>stdout = out, stderr = [], outcome = Inr 0\<rparr>)"
  using assms by (simp add: main_def fetch_index_def)

subsection \<open>The store is only read\<close>

lemma store_unchanged_aux:
  "(\<forall>h' out' e. walk_st sfmt fuel h region indent out = Some (h', out', e) \<longrightarrow> h' = h)"
  "(\<forall>h' out' e. loop_st sfmt fuel h it indent out = Some (h', out', e) \<longrightarrow> h' = h)"
proof (induction sfmt fuel h region indent out and sfmt fuel h it indent out
    rule: walk_st_loop_st.induct)
  case (1 sfmt h region indent out)
  show ?case by simp
next
  case (2 sfmt fuel h region indent out)
  show ?case
  proof (intro allI impI)
    fix h' out' e
    assume r: "walk_st sfmt (Suc fuel) h region indent out = Some (h', out', e)"
    show "h' = h"
    proof (cases "get_st h region ''path'' VNone")
      case (Inl x)
      with r show ?thesis by simp
    next
      case path: (Inr path)
      show ?thesis
      proof (cases "get_st h region ''subregions'' VEmptyList")
        case (Inl x)
        with r path show ?thesis by (simp add: Let_def)
      next
        case v: (Inr v)
        show ?thesis
        proof (cases "iter_st h v")
          case (Inl x)
          with r path v show ?thesis by (simp add: Let_def)
        next
          case it: (Inr it)
          from r path v it 2 [OF path refl v it] show ?thesis
            by (simp add: Let_def)
        qed
      qed
    qed
  qed
next
  case (3 sfmt h it indent out)
  show ?case by simp
next
  case (4 sfmt fuel h it indent out)
  show ?case
  proof (intro allI impI)
    fix h' out' e
    assume r: "loop_st sfmt (Suc fuel) h it indent out = Some (h', out', e)"
    show "h' = h"
    proof (cases "next_st h it")
      case None
      with r show ?thesis by simp
    next
      case (Some p)
      obtain sub it' where p: "p = (sub, it')" by (cases p)
      note nx = Some [unfolded p]
      show ?thesis
      proof (cases "walk_st sfmt fuel h sub indent out")
        case None
        with r nx show ?thesis by simp
      next
        case w: (Some res)
        obtain h1 out1 e1 where res: "res = (h1, out1, e1)" by (cases res)
        from 4(1) [OF nx refl] w res have h1: "h1 = h" by simp
        show ?thesis
        proof (cases e1)
          case None
          from 4(2) [OF nx refl w [unfolded res] refl refl None] r nx w res None h1
          show ?thesis by simp
        next
          case (Some x)
          with r nx w res h1 show ?thesis by simp
        qed
      qed
    qed
  qed
qed

lemma rep_null: "represents h v JNull \<Longrightarrow> v = VNone"
  by (erule represents.cases) auto

lemma rep_string: "represents h v (JStr s) \<Longrightarrow> v = VStr s"
  by (erule represents.cases) auto

lemma rep_array:
  "represents h v (JArr js) \<Longrightarrow>
   \<exists>b vs. v = VRef b \<and> h b = Some (OList vs) \<and> list_all2 (represents h) vs js"
  by (erule represents.cases) auto

lemma rep_object:
  "represents h v (JObj kjs) \<Longrightarrow>
   \<exists>a kvs. v = VRef a \<and> h a = Some (ODict kvs) \<and> map fst kvs = map fst kjs \<and>
     list_all2 (represents h) (map snd kvs) (map snd kjs)"
  by (erule represents.cases) auto

lemma rep_lookup:
  "map fst kvs = map fst kjs \<Longrightarrow> list_all2 R (map snd kvs) (map snd kjs) \<Longrightarrow>
   rel_option R (map_of kvs k) (map_of kjs k)"
proof (induction kvs arbitrary: kjs)
  case Nil
  then show ?case by simp
next
  case (Cons kv kvs)
  then obtain kj kjs' where "kjs = kj # kjs'" by (cases kjs) auto
  with Cons show ?case by (cases kv; cases kj) auto
qed

lemma wf_walkable: "wf_region n \<Longrightarrow> walkable n"
proof (induction n rule: measure_induct_rule [where f = weight])
  case (less n)
  from less.prems have "list_all wf_region (children n)"
    by (simp add: wf_region.simps)
  then have "list_all walkable (children n)"
    by (auto simp: list_all_iff intro: less.IH children_weight)
  with less.prems show ?case
    by (subst walkable.simps) (auto simp: wf_region.simps [of n] split: sum.splits json.splits)
qed

lemma walk_wf_lines:
  assumes "wf_region n"
  shows "walk fmt n indent out = (out @ fst (walk fmt n indent []), None)"
proof -
  from assms have "walkable n" by (rule wf_walkable)
  then have "snd (walk fmt n indent []) = None" by (simp add: walk_ok_iff)
  then show ?thesis by (subst walk_out) simp
qed

lemma walk_wf_step:
  assumes "wf_region n"
  shows "fst (walk fmt n indent []) =
    (case path_of n of None \<Rightarrow> [] | Some s \<Rightarrow> [line fmt indent (JStr s)]) @
    concat (map (\<lambda>c. fst (walk fmt c (indent + 1) [])) (children n))"
proof -
  from assms have wf: "list_all wf_region (children n)" by (simp add: wf_region.simps)
  have "walk_each fmt (children n) (indent + 1) out =
      (out @ concat (map (\<lambda>c. fst (walk fmt c (indent + 1) [])) (children n)), None)" for out
  proof (rule walk_each_all)
    fix c out' assume "c \<in> set (children n)"
    with wf have "wf_region c" by (simp add: list_all_iff)
    then show "walk fmt c (indent + 1) out' = (out' @ fst (walk fmt c (indent + 1) []), None)"
      by (rule walk_wf_lines)
  qed
  then show ?thesis
    by (simp add: walk_node [OF assms] split: option.splits)
qed

lemma loop_st_list:
  assumes cell: "h b = Some (OList vs)"
    and len: "length vs = length js"
    and each: "\<And>i fuel out. i < length js \<Longrightarrow> weight (js ! i) < fuel \<Longrightarrow>
      walk_st sfmt fuel h (vs ! i) indent out = Some (h, out @ L (js ! i), None)"
  shows "i \<le> length js \<Longrightarrow> sum_list (map (\<lambda>c. Suc (weight c)) (drop i js)) < fuel \<Longrightarrow>
    loop_st sfmt fuel h (ListIter b i) indent out = Some (h, out @ concat (map L (drop i js)), None)"
proof (induction "length js - i" arbitrary: i fuel out)
  case 0
  then have "i = length js" by simp
  moreover from 0 obtain k where "fuel = Suc k" by (cases fuel) auto
  ultimately show ?case using cell len by simp
next
  case (Suc m)
  then have i: "i < length js" by simp
  from Suc.prems(2) obtain k where k: "fuel = Suc k" by (cases fuel) auto
  have d: "drop i js = js ! i # drop (Suc i) js"
    using i by (simp add: Cons_nth_drop_Suc)
  from Suc.prems(2) have f1: "weight (js ! i) < k"
    and f2: "sum_list (map (\<lambda>c. Suc (weight c)) (drop (Suc i) js)) < k"
    unfolding d k by simp_all
  have w: "walk_st sfmt k h (vs ! i) indent out = Some (h, out @ L (js ! i), None)"
    using i f1 by (rule each)
  have "m = length js - Suc i" using Suc.hyps(2) by simp
  from Suc.hyps(1) [OF this _ f2] i
  have l: "loop_st sfmt k h (ListIter b (Suc i)) indent (out @ L (js ! i)) =
      Some (h, (out @ L (js ! i)) @ concat (map L (drop (Suc i) js)), None)"
    by simp
  show ?case
    unfolding k d using cell len i w l by simp
qed

lemma walk_st_wf:
  "represents h v j \<Longrightarrow> wf_region j \<Longrightarrow> weight j < fuel \<Longrightarrow>
   walk_st sfmt fuel h v indent out = Some (h, out @ fst (walk fmt j indent []), None)"
proof (induction j arbitrary: v fuel indent out rule: measure_induct_rule [where f = weight])
  case (less j)
  from less.prems(2) obtain kjs where j: "j = JObj kjs"
    by (auto simp: wf_region.simps dict_get_def split: json.splits)
  from less.prems(1) [unfolded j] obtain a kvs where v: "v = VRef a" and cell: "h a = Some (ODict kvs)"
    and keys: "map fst kvs = map fst kjs" and vals: "list_all2 (represents h) (map snd kvs) (map snd kjs)"
    by (blast dest: rep_object)
  note look = rep_lookup [OF keys vals]
  from less.prems(3) obtain k where k: "fuel = Suc k" by (cases fuel) auto
  have wfc: "list_all wf_region (children j)"
    using less.prems(2) by (simp add: wf_region.simps)
  \<comment> \<open>the path\<close>
  obtain pv where pv: "get_st h v ''path'' VNone = Inr pv"
    and pv_def: "pv = (case map_of kvs ''path'' of None \<Rightarrow> VNone | Some x \<Rightarrow> x)"
    by (simp add: get_st_def v cell)
  have own: "(if truthy_st h pv then out @ [line_st sfmt h indent pv] else out) =
      out @ (case path_of j of None \<Rightarrow> [] | Some s \<Rightarrow> [line fmt indent (JStr s)])"
  proof (cases "map_of kjs ''path''")
    case None
    with look [of "''path''"] have "map_of kvs ''path'' = None" by simp
    with None show ?thesis by (simp add: pv_def path_of_def dict_get_def j)
  next
    case (Some jp)
    with look [of "''path''"] obtain x where x: "map_of kvs ''path'' = Some x" "represents h x jp"
      by (auto simp: option_rel_Some2)
    from less.prems(2) Some have "jp = JNull \<or> (\<exists>s. jp = JStr s)"
      unfolding j by (auto simp: wf_region.simps [of "JObj kjs"] dict_get_def split: json.splits)
    then show ?thesis
    proof
      assume "jp = JNull"
      with x have "x = VNone" by (simp add: rep_null)
      with x Some \<open>jp = JNull\<close> show ?thesis
        by (simp add: pv_def path_of_def dict_get_def j)
    next
      assume "\<exists>s. jp = JStr s"
      then obtain s where s: "jp = JStr s" ..
      with x have "x = VStr s" by (simp add: rep_string)
      with x Some s show ?thesis
        by (simp add: pv_def path_of_def dict_get_def j line_st_def line_def py_format_def)
    qed
  qed
  \<comment> \<open>the children\<close>
  obtain sv where sv: "get_st h v ''subregions'' VEmptyList = Inr sv"
    and sv_def: "sv = (case map_of kvs ''subregions'' of None \<Rightarrow> VEmptyList | Some x \<Rightarrow> x)"
    by (simp add: get_st_def v cell)
  have loop: "\<exists>it. iter_st h sv = Inr it \<and>
      (\<forall>out1. loop_st sfmt k h it (indent + 1) out1 =
        Some (h, out1 @ concat (map (\<lambda>c. fst (walk fmt c (indent + 1) [])) (children j)), None))"
  proof (cases "map_of kjs ''subregions''")
    case None
    with look [of "''subregions''"] have "map_of kvs ''subregions'' = None" by simp
    then have "sv = VEmptyList" by (simp add: sv_def)
    moreover from None have "children j = []" by (simp add: children_def dict_get_def j)
    moreover from less.prems(3) obtain k' where "k = Suc k'"
      unfolding k j by (cases k) auto
    ultimately show ?thesis by (simp add: iter_st_def)
  next
    case (Some js')
    with look [of "''subregions''"] obtain x where x: "map_of kvs ''subregions'' = Some x"
      "represents h x js'"
      by (auto simp: option_rel_Some2)
    from less.prems(2) Some obtain js where js: "js' = JArr js"
      unfolding j by (auto simp: wf_region.simps [of "JObj kjs"] dict_get_def split: json.splits)
    from x(2) [unfolded js] obtain b vs where b: "x = VRef b" "h b = Some (OList vs)"
      "list_all2 (represents h) vs js"
      by (blast dest: rep_array)
    have ch: "children j = js" using Some js by (simp add: children_def dict_get_def j)
    have it: "iter_st h sv = Inr (ListIter b 0)"
      using x b by (simp add: sv_def iter_st_def)
    have len: "length vs = length js" using b(3) by (rule list_all2_lengthD)
    have each: "walk_st sfmt fuel' h (vs ! i) (indent + 1) out' =
        Some (h, out' @ fst (walk fmt (js ! i) (indent + 1) []), None)"
      if "i < length js" "weight (js ! i) < fuel'" for i fuel' out'
    proof (rule less.IH)
      from that(1) have "js ! i \<in> set (children j)" by (simp add: ch)
      then show "weight (js ! i) < weight j" by (rule children_weight)
      from b(3) that(1) show "represents h (vs ! i) (js ! i)" by (simp add: list_all2_nthD2)
      from wfc that(1) show "wf_region (js ! i)" by (simp add: ch list_all_iff)
      from that(2) show "weight (js ! i) < fuel'" .
    qed
    have "weight (JArr js) < weight j"
      using Some js by (simp add: j map_of_weight del: weight.simps)
    with less.prems(3) have fk: "sum_list (map (\<lambda>c. Suc (weight c)) (drop 0 js)) < k"
      unfolding k by simp
    have "loop_st sfmt k h (ListIter b 0) (indent + 1) out1 =
        Some (h, out1 @ concat (map (\<lambda>c. fst (walk fmt c (indent + 1) [])) (drop 0 js)), None)"
      for out1
    proof (rule loop_st_list [where h = h and b = b and vs = vs and js = js and i = 0
          and L = "\<lambda>c. fst (walk fmt c (indent + 1) [])", OF b(2) len])
      show "0 \<le> length js" by simp
      show "sum_list (map (\<lambda>c. Suc (weight c)) (drop 0 js)) < k" by (rule fk)
      fix i fuel' out'
      assume "i < length js" "weight (js ! i) < fuel'"
      then show "walk_st sfmt fuel' h (vs ! i) (indent + 1) out' =
          Some (h, out' @ fst (walk fmt (js ! i) (indent + 1) []), None)"
        by (rule each)
    qed
    with it ch show ?thesis by simp
  qed
  then obtain it where it: "iter_st h sv = Inr it"
    and run: "\<And>out1. loop_st sfmt k h it (indent + 1) out1 =
        Some (h, out1 @ concat (map (\<lambda>c. fst (walk fmt c (indent + 1) [])) (children j)), None)"
    by blast
  have "walk_st sfmt (Suc k) h v indent out =
      loop_st sfmt k h it (indent + 1)
        (if truthy_st h pv then out @ [line_st sfmt h indent pv] else out)"
    by (simp add: pv sv it Let_def)
  then show ?case
    unfolding k own run walk_wf_step [OF less.prems(2)] by simp
qed

lemma walk_europe: "walk fmt europe 0 [] = ([''- europe'', ''  - europe/albania''], None)"
proof -
  have "wf_region europe" using wf_europe by simp
  from walk_wf [OF this, of fmt 0 "[]"] show ?thesis
    by (simp add: region_of_europe render_def line_def py_format_def)
qed

lemma europe_cells:
  "europe_store 10 = Some (ODict [(''path'', VStr ''europe''), (''subregions'', VRef 11)])"
  "europe_store 11 = Some (OList [VRef 12])"
  "europe_store 12 = Some (ODict [(''path'', VStr ''europe/albania''), (''subregions'', VRef 13)])"
  "europe_store 13 = Some (OList [])"
  by (simp_all add: europe_store_def)

lemma rep_europe: "represents europe_store (VRef 10) europe"
proof -
  have a: "represents europe_store (VRef 13) (JArr [])"
    by (rule rep_list [where h = europe_store and a = 13, OF europe_cells(4)]) simp
  have b: "represents europe_store (VRef 12)
      (JObj [(''path'', JStr ''europe/albania''), (''subregions'', JArr [])])"
    by (rule rep_dict [where h = europe_store and a = 12, OF europe_cells(3)]) (simp_all add: a rep_str)
  have c: "represents europe_store (VRef 11)
      (JArr [JObj [(''path'', JStr ''europe/albania''), (''subregions'', JArr [])]])"
    by (rule rep_list [where h = europe_store and a = 11, OF europe_cells(2)]) (simp add: b)
  show ?thesis
    unfolding europe_def
    by (rule rep_dict [where h = europe_store and a = 10, OF europe_cells(1)]) (simp_all add: c rep_str)
qed

section \<open>The claims\<close>

subsection \<open>The driver on a document without regions\<close>

text \<open>
  C1, as the code has it. \<open>main\<close> tests the fetched object with \<open>if not data\<close>,
  which is true of every falsy object and not of \<open>None\<close> alone. A fetched document
  that is a non-empty object whose \<open>subregions\<close> entry is absent or the empty list
  prints nothing, calls \<open>walk\<close> on nothing and returns 0. And \<open>main\<close> returns 1
  exactly when the fetched object is falsy.
\<close>

theorem main_zero_regions:
  assumes "kvs \<noteq> []"
    and "map_of kvs ''subregions'' = None \<or> map_of kvs ''subregions'' = Some (JArr [])"
  shows "main fmt (Inr (JObj kvs)) = \<lparr>stdout = [], stderr = [], outcome = Inr 0\<rparr> \<and>
    (\<forall>resp. (outcome (main fmt resp) = Inr 1) = (\<not> truthy (snd (fetch_index resp))))"
  using assms
  by (auto simp: main_def fetch_index_def dict_get_def py_iter_def
      split: prod.splits sum.splits option.splits)

theorem main_zero_regions_witness:
  "main str_unused (Inr (JObj [(''type'', JStr ''index'')])) =
     \<lparr>stdout = [], stderr = [], outcome = Inr 0\<rparr>"
  using main_zero_regions [of "[(''type'', JStr ''index'')]" str_unused] by simp

text \<open>
  C1 as stated fails on the empty object \<^verbatim>\<open>{}\<close>: it is a present document, its
  \<open>subregions\<close> field is absent, it holds no region, and \<open>main\<close> returns 1 on it.
\<close>

theorem main_empty_object_counterexample:
  "map_of [] ''subregions'' = (None :: json option) \<and>
   main str_unused (Inr (JObj [])) = \<lparr>stdout = [], stderr = [], outcome = Inr 1\<rparr>"
  by (simp add: main_def fetch_index_def)

subsection \<open>A node without a subregions entry\<close>

text \<open>
  C6: a node with no \<open>subregions\<close> key has no children. \<open>walk\<close> prints the node's
  own line when its path is truthy, visits nothing, and raises nothing. This holds for
  every dict, whatever its other entries are.
\<close>

theorem walk_missing_subregions:
  assumes "map_of kvs ''subregions'' = None"
  shows "walk fmt (JObj kvs) indent out =
     (case map_of kvs ''path'' of
        None \<Rightarrow> (out, None)
      | Some path \<Rightarrow> (if truthy path then out @ [line fmt indent path] else out, None))"
  using assms by (simp add: walk.simps dict_get_def py_iter_def split: option.splits)

theorem walk_missing_subregions_witness:
  "walk str_unused (JObj [(''path'', JStr ''antarctica'')]) 3 [] = ([''      - antarctica''], None)"
  using walk_missing_subregions [of "[(''path'', JStr ''antarctica'')]" str_unused 3 "[]"]
  by (simp add: line_def py_format_def eval_nat_numeral)

subsection \<open>Depth, order and completeness of the printed records\<close>

text \<open>
  In the following, \<open>docs\<close> are the top-level nodes of a well-formed document and
  \<open>walk_each fmt docs 0 []\<close> is the loop of \<open>main\<close> over them.

  C2: \<open>main\<close> on a document whose \<open>subregions\<close> are the well-formed nodes
  \<open>docs\<close> (none, when the key is absent) runs \<open>walk\<close> on them at depth 0 and
  returns 0. Every line it prints belongs to a node with a path, and its indentation
  level is the number of that node's ancestors, each of which is a node of the tree; the
  root container is not counted. And \<open>walk\<close> visits the children of a node at
  \<open>indent + 1\<close>, whether or not the node printed a line.
\<close>

theorem main_depth_counts_ancestors:
  assumes "truthy root"
    and "dict_get root ''subregions'' (JArr []) = Inr (JArr docs)"
    and "list_all wf_region docs"
  shows "stdout (main fmt (Inr root)) = fst (walk_each fmt docs 0 []) \<and>
    outcome (main fmt (Inr root)) = Inr 0 \<and>
    list_all2
     (\<lambda>printed p. \<exists>n s. node_at (map region_of docs) p = Some n \<and> node_path n = Some s \<and>
         list_all (\<lambda>q. node_at (map region_of docs) q \<noteq> None) (ancestors p) \<and>
         printed = line fmt (int (length (ancestors p))) (JStr s))
     (stdout (main fmt (Inr root))) (record_positions (map region_of docs)) \<and>
    (\<forall>n indent out. wf_region n \<longrightarrow>
       walk fmt n indent out =
         walk_each fmt (children n) (indent + 1)
           (case path_of n of None \<Rightarrow> out | Some s \<Rightarrow> out @ [line fmt indent (JStr s)]))"
proof -
  let ?rs = "map region_of docs"
  have it: "py_iter (JArr docs) = Inr docs" by (simp add: py_iter_def)
  have w: "walk_each fmt docs 0 [] = (map (line_at fmt ?rs) (record_positions ?rs), None)"
    using assms(3) by (rule walk_each_lines)
  have m: "main fmt (Inr root) =
      \<lparr>stdout = map (line_at fmt ?rs) (record_positions ?rs), stderr = [], outcome = Inr 0\<rparr>"
    unfolding main_loop [OF assms(1,2) it] w by simp
  have "\<exists>n s. node_at ?rs p = Some n \<and> node_path n = Some s \<and>
         list_all (\<lambda>q. node_at ?rs q \<noteq> None) (ancestors p) \<and>
         line_at fmt ?rs p = line fmt (int (length (ancestors p))) (JStr s)"
    if "p \<in> set (record_positions ?rs)" for p
  proof -
    from that obtain n s where n: "node_at ?rs p = Some n" "node_path n = Some s"
      by (auto simp: positions_set)
    from n(1) have "list_all (\<lambda>q. node_at ?rs q \<noteq> None) (ancestors p)"
      by (rule node_at_ancestors)
    moreover have "line_at fmt ?rs p = line fmt (int (length (ancestors p))) (JStr s)"
      using n by (simp add: line_at_def render_pair length_ancestors path_at_Some)
    ultimately show ?thesis using n by blast
  qed
  then have l: "list_all2
     (\<lambda>printed p. \<exists>n s. node_at ?rs p = Some n \<and> node_path n = Some s \<and>
         list_all (\<lambda>q. node_at ?rs q \<noteq> None) (ancestors p) \<and>
         printed = line fmt (int (length (ancestors p))) (JStr s))
     (stdout (main fmt (Inr root))) (record_positions ?rs)"
    by (simp add: m list_all2_map1 list_all2_same)
  have n: "\<forall>n indent out. wf_region n \<longrightarrow>
       walk fmt n indent out =
         walk_each fmt (children n) (indent + 1)
           (case path_of n of None \<Rightarrow> out | Some s \<Rightarrow> out @ [line fmt indent (JStr s)])"
    by (simp add: walk_node)
  from l n show ?thesis by (simp add: m w)
qed

theorem main_depth_counts_ancestors_witness:
  "truthy scenario_b \<and>
   dict_get scenario_b ''subregions'' (JArr []) = Inr (JArr [europe]) \<and>
   list_all wf_region [europe] \<and>
   record_positions (map region_of [europe]) = [[0], [0, 0]] \<and>
   ancestors [0] = [] \<and> ancestors [0, 0] = [[0]] \<and>
   stdout (main str_unused (Inr scenario_b)) = [''- europe'', ''  - europe/albania''] \<and>
   outcome (main str_unused (Inr scenario_b)) = Inr 0"
proof -
  have t: "truthy scenario_b" by (simp add: scenario_b_def)
  have g: "dict_get scenario_b ''subregions'' (JArr []) = Inr (JArr [europe])"
    by (simp add: scenario_b_def dict_get_def)
  have anc: "ancestors [0] = []" "ancestors [0, 0] = [[0]]"
    by (simp_all add: ancestors_def upt_rec)
  have r: "record_positions (map region_of [europe]) = [[0], [0, 0]]"
    by (simp add: region_of_europe positions_europe)
  note inst = main_depth_counts_ancestors [OF t g wf_europe, of str_unused]
  from inst have "list_all2
     (\<lambda>printed p. \<exists>n s. node_at (map region_of [europe]) p = Some n \<and> node_path n = Some s \<and>
         list_all (\<lambda>q. node_at (map region_of [europe]) q \<noteq> None) (ancestors p) \<and>
         printed = line str_unused (int (length (ancestors p))) (JStr s))
     (stdout (main str_unused (Inr scenario_b))) (record_positions (map region_of [europe]))"
    by blast
  then have s: "stdout (main str_unused (Inr scenario_b)) = [''- europe'', ''  - europe/albania'']"
    unfolding r
    by (auto simp: region_of_europe list_all2_Cons2 node_at_def anc line_def py_format_def)
  from inst have o: "outcome (main str_unused (Inr scenario_b)) = Inr 0" by blast
  from t g wf_europe r anc s o show ?thesis by blast
qed

text \<open>
  C3: the lines are printed in pre-order. The line of a node comes before the line of
  each of its descendants (the position of an ancestor is a proper prefix), and where two
  nodes lie under the children \<open>i < j\<close> of one node (or of the root, \<open>r = []\<close>), the
  line of the one under \<open>i\<close> comes first.
\<close>

theorem walk_preorder:
  assumes "list_all wf_region docs"
  shows "fst (walk_each fmt docs 0 []) =
      map (line_at fmt (map region_of docs)) (record_positions (map region_of docs)) \<and>
    (\<forall>a b. a < length (record_positions (map region_of docs)) \<and>
           b < length (record_positions (map region_of docs)) \<and>
           strict_prefix (record_positions (map region_of docs) ! a)
                         (record_positions (map region_of docs) ! b) \<longrightarrow> a < b) \<and>
    (\<forall>a b r i j xs ys.
           a < length (record_positions (map region_of docs)) \<and>
           b < length (record_positions (map region_of docs)) \<and>
           record_positions (map region_of docs) ! a = r @ i # xs \<and>
           record_positions (map region_of docs) ! b = r @ j # ys \<and> i < j \<longrightarrow> a < b)"
proof (intro conjI allI impI)
  show "fst (walk_each fmt docs 0 []) =
      map (line_at fmt (map region_of docs)) (record_positions (map region_of docs))"
    by (simp add: walk_each_lines [OF assms])
next
  fix a b
  assume "a < length (record_positions (map region_of docs)) \<and>
           b < length (record_positions (map region_of docs)) \<and>
           strict_prefix (record_positions (map region_of docs) ! a)
                         (record_positions (map region_of docs) ! b)"
  then show "a < b"
    by (auto intro: sorted_before_index [OF positions_sorted] before_prefix)
next
  fix a b r i j xs ys
  assume h: "a < length (record_positions (map region_of docs)) \<and>
           b < length (record_positions (map region_of docs)) \<and>
           record_positions (map region_of docs) ! a = r @ i # xs \<and>
           record_positions (map region_of docs) ! b = r @ j # ys \<and> i < j"
  then have "before (record_positions (map region_of docs) ! a) (record_positions (map region_of docs) ! b)"
    by (simp add: before_siblings)
  with h show "a < b"
    by (auto intro: sorted_before_index [OF positions_sorted])
qed

theorem walk_preorder_witness:
  "list_all wf_region [europe] \<and>
   record_positions (map region_of [europe]) = [[0], [0, 0]] \<and>
   strict_prefix [0 :: nat] [0, 0] \<and>
   fst (walk_each str_unused [europe] 0 []) = [''- europe'', ''  - europe/albania'']"
proof -
  from walk_preorder [OF wf_europe, of str_unused]
  have "fst (walk_each str_unused [europe] 0 []) =
      map (line_at str_unused (map region_of [europe])) (record_positions (map region_of [europe]))"
    by blast
  then have "fst (walk_each str_unused [europe] 0 []) = [''- europe'', ''  - europe/albania'']"
    by (simp add: region_of_europe positions_europe line_at_def render_def node_at_def
        path_at_def line_def py_format_def)
  moreover have "record_positions (map region_of [europe]) = [[0], [0, 0]]"
    by (simp add: region_of_europe positions_europe)
  moreover have "strict_prefix [0 :: nat] [0, 0]" by simp
  ultimately show ?thesis using wf_europe by blast
qed

text \<open>
  C4: a node contributes one line when its path is present and not empty, and none
  otherwise, whatever its descendants are; and \<open>walk\<close> on any well-formed node goes on
  to the children at \<open>indent + 1\<close>, with or without a line of its own.
\<close>

theorem walk_emits_iff_path:
  assumes "list_all wf_region docs"
  shows "fst (walk_each fmt docs 0 []) =
      map (line_at fmt (map region_of docs)) (record_positions (map region_of docs)) \<and>
    (\<forall>p n. node_at (map region_of docs) p = Some n \<longrightarrow>
       count_list (record_positions (map region_of docs)) p =
         (case node_path n of None \<Rightarrow> 0 | Some s \<Rightarrow> 1)) \<and>
    (\<forall>n indent out. wf_region n \<longrightarrow>
       walk fmt n indent out =
         walk_each fmt (children n) (indent + 1)
           (case path_of n of None \<Rightarrow> out | Some s \<Rightarrow> out @ [line fmt indent (JStr s)]))"
proof (intro conjI allI impI)
  show "fst (walk_each fmt docs 0 []) =
      map (line_at fmt (map region_of docs)) (record_positions (map region_of docs))"
    by (simp add: walk_each_lines [OF assms])
next
  fix p n assume n: "node_at (map region_of docs) p = Some n"
  show "count_list (record_positions (map region_of docs)) p =
         (case node_path n of None \<Rightarrow> 0 | Some s \<Rightarrow> 1)"
  proof (cases "node_path n")
    case None
    with n have "p \<notin> set (record_positions (map region_of docs))"
      by (simp add: positions_set)
    with None show ?thesis by simp
  next
    case (Some s)
    with n have "p \<in> set (record_positions (map region_of docs))"
      by (auto simp: positions_set)
    with Some show ?thesis
      by (simp add: count_list_distinct [OF positions_distinct])
  qed
next
  fix n indent out assume "wf_region n"
  then show "walk fmt n indent out =
         walk_each fmt (children n) (indent + 1)
           (case path_of n of None \<Rightarrow> out | Some s \<Rightarrow> out @ [line fmt indent (JStr s)])"
    by (rule walk_node)
qed

theorem walk_emits_iff_path_witness:
  "list_all wf_region [grouping] \<and>
   node_at (map region_of [grouping]) [0] =
     Some (Region None [Region (Some ''a'') [], Region (Some ''b'') []]) \<and>
   count_list (record_positions (map region_of [grouping])) [0] = 0 \<and>
   count_list (record_positions (map region_of [grouping])) [0, 1] = 1 \<and>
   fst (walk_each str_unused [grouping] 0 []) = [''  - a'', ''  - b'']"
proof -
  have n: "node_at (map region_of [grouping]) [0] =
      Some (Region None [Region (Some ''a'') [], Region (Some ''b'') []])"
    by (simp add: region_of_grouping node_at_def)
  have m: "node_at (map region_of [grouping]) [0, 1] = Some (Region (Some ''b'') [])"
    by (simp add: region_of_grouping node_at_def)
  note t = walk_emits_iff_path [OF wf_grouping, of str_unused]
  from t have "count_list (record_positions (map region_of [grouping])) [0] =
      (case node_path (Region None [Region (Some ''a'') [], Region (Some ''b'') []]) of
         None \<Rightarrow> 0 | Some s \<Rightarrow> 1)"
    using n by blast
  then have c: "count_list (record_positions (map region_of [grouping])) [0] = 0" by simp
  from t have "count_list (record_positions (map region_of [grouping])) [0, 1] =
      (case node_path (Region (Some ''b'') []) of None \<Rightarrow> 0 | Some s \<Rightarrow> 1)"
    using m by blast
  then have d: "count_list (record_positions (map region_of [grouping])) [0, 1] = 1" by simp
  from t have "fst (walk_each str_unused [grouping] 0 []) =
      map (line_at str_unused (map region_of [grouping])) (record_positions (map region_of [grouping]))"
    by blast
  then have "fst (walk_each str_unused [grouping] 0 []) = [''  - a'', ''  - b'']"
    by (simp add: region_of_grouping positions_grouping line_at_def render_def node_at_def
        path_at_def line_def py_format_def del: walk_each.simps)
  with wf_grouping n c d show ?thesis by blast
qed

text \<open>
  C5: the printed lines correspond one to one to the nodes that have a path; their number
  is the number of those nodes.
\<close>

theorem walk_record_count:
  assumes "list_all wf_region docs"
  shows "distinct (record_positions (map region_of docs)) \<and>
    set (record_positions (map region_of docs)) =
      {p. \<exists>n s. node_at (map region_of docs) p = Some n \<and> node_path n = Some s} \<and>
    fst (walk_each fmt docs 0 []) =
      map (line_at fmt (map region_of docs)) (record_positions (map region_of docs)) \<and>
    length (fst (walk_each fmt docs 0 [])) =
      card {p. \<exists>n s. node_at (map region_of docs) p = Some n \<and> node_path n = Some s} \<and>
    length (fst (walk_each fmt docs 0 [])) = sum_list (map path_count (map region_of docs))"
proof -
  let ?rs = "map region_of docs"
  have set: "set (record_positions ?rs) = {p. \<exists>n s. node_at ?rs p = Some n \<and> node_path n = Some s}"
    by (auto simp: positions_set)
  have out: "fst (walk_each fmt docs 0 []) = map (line_at fmt ?rs) (record_positions ?rs)"
    by (simp add: walk_each_lines [OF assms])
  have "length (fst (walk_each fmt docs 0 [])) = card (set (record_positions ?rs))"
    by (simp add: out distinct_card [OF positions_distinct])
  moreover have "length (fst (walk_each fmt docs 0 [])) = sum_list (map path_count ?rs)"
  proof -
    have "walk_each fmt docs (int 0) [] = ([] @ map (render fmt) (concat (map (\<lambda>r. visit r 0) ?rs)), None)"
      using assms by (rule walk_each_wf)
    then have "length (fst (walk_each fmt docs 0 [])) = length (concat (map (\<lambda>r. visit r 0) ?rs))"
      by simp
    also have "\<dots> = sum_list (map path_count ?rs)"
      by (simp add: length_concat comp_def length_visit)
    finally show ?thesis .
  qed
  ultimately show ?thesis
    using set out positions_distinct [of ?rs] by simp
qed

theorem walk_record_count_witness:
  "list_all wf_region [europe] \<and>
   sum_list (map path_count (map region_of [europe])) = 2 \<and>
   length (fst (walk_each str_unused [europe] 0 [])) = 2 \<and>
   card {p. \<exists>n s. node_at (map region_of [europe]) p = Some n \<and> node_path n = Some s} = 2"
proof -
  have s: "sum_list (map path_count (map region_of [europe])) = 2"
    by (simp add: region_of_europe)
  note t = walk_record_count [OF wf_europe, of str_unused]
  from t have "length (fst (walk_each str_unused [europe] 0 [])) =
      sum_list (map path_count (map region_of [europe]))"
    by blast
  with s have l: "length (fst (walk_each str_unused [europe] 0 [])) = 2" by (simp only:)
  from t have "length (fst (walk_each str_unused [europe] 0 [])) =
      card {p. \<exists>n s. node_at (map region_of [europe]) p = Some n \<and> node_path n = Some s}"
    by blast
  with l have "card {p. \<exists>n s. node_at (map region_of [europe]) p = Some n \<and> node_path n = Some s} = 2"
    by (simp only:)
  with wf_europe s l show ?thesis by blast
qed

subsection \<open>The rendering of a record\<close>

text \<open>
  C7: the printed lines are the records of the spec's flatten, in its order, each as two
  spaces per level of depth, then \<open>- \<close> and the path; at depth 2 that is four
  spaces; and \<open>main\<close> on the document of Scenario B prints \<open>- europe\<close> and then
  \<open>- europe/albania\<close> behind two spaces.
\<close>

theorem walk_rendering:
  assumes "list_all wf_region docs"
  shows "fst (walk_each fmt docs 0 []) =
      map (\<lambda>r. replicate (2 * fst r) (CHR '' '') @ ''- '' @ snd r) (flatten (map region_of docs)) \<and>
    line fmt 2 (JStr s) = ''    - '' @ s \<and>
    main fmt (Inr scenario_b) =
      \<lparr>stdout = [''- europe'', ''  - europe/albania''], stderr = [], outcome = Inr 0\<rparr>"
proof (intro conjI)
  have "walk_each fmt docs (int 0) [] = ([] @ map (render fmt) (flatten (map region_of docs)), None)"
    unfolding flatten_def using assms by (rule walk_each_wf)
  then show "fst (walk_each fmt docs 0 []) =
      map (\<lambda>r. replicate (2 * fst r) (CHR '' '') @ ''- '' @ snd r) (flatten (map region_of docs))"
    by (simp add: render_def line_spaces)
next
  have "line fmt (int 2) (JStr s) = replicate (2 * 2) (CHR '' '') @ ''- '' @ s"
    by (rule line_spaces)
  then show "line fmt 2 (JStr s) = ''    - '' @ s"
    by (simp add: eval_nat_numeral)
next
  have "walk_each fmt [europe] 0 [] = ([''- europe'', ''  - europe/albania''], None)"
    by (rule walk_each_europe)
  then show "main fmt (Inr scenario_b) =
      \<lparr>stdout = [''- europe'', ''  - europe/albania''], stderr = [], outcome = Inr 0\<rparr>"
    by (simp add: main_def fetch_index_def scenario_b_def dict_get_def py_iter_def
        del: walk_each.simps)
qed

theorem walk_rendering_witness:
  "list_all wf_region [europe] \<and>
   flatten (map region_of [europe]) = [(0, ''europe''), (1, ''europe/albania'')] \<and>
   fst (walk_each str_unused [europe] 0 []) = [''- europe'', ''  - europe/albania'']"
proof -
  have f: "flatten (map region_of [europe]) = [(0, ''europe''), (1, ''europe/albania'')]"
    by (simp add: region_of_europe flatten_def)
  from walk_rendering [OF wf_europe, of str_unused]
  have "fst (walk_each str_unused [europe] 0 []) =
      map (\<lambda>r. replicate (2 * fst r) (CHR '' '') @ ''- '' @ snd r) (flatten (map region_of [europe]))"
    by blast
  then have "fst (walk_each str_unused [europe] 0 []) = [''- europe'', ''  - europe/albania'']"
    unfolding f by (simp add: eval_nat_numeral del: walk_each.simps)
  with wf_europe f show ?thesis by blast
qed

subsection \<open>A subregions entry that is not a list\<close>

text \<open>
  C8, as the code has it. The default \<open>[]\<close> stands in for an absent key only. When
  the entry is \<open>null\<close>, \<open>walk\<close> prints the node's own line, if it has one, and the
  loop raises TypeError. And \<open>walk\<close> ends without an exception only on nodes in which
  every present \<open>subregions\<close> value is a list of such nodes, or an empty string or an
  empty dict.
\<close>

theorem walk_total_only_iterable:
  "(map_of kvs ''subregions'' = Some JNull \<longrightarrow>
      walk fmt (JObj kvs) indent out =
        (case map_of kvs ''path'' of
           None \<Rightarrow> (out, Some TypeError)
         | Some path \<Rightarrow> (if truthy path then out @ [line fmt indent path] else out, Some TypeError))) \<and>
   (snd (walk fmt n indent out) = None \<longrightarrow> walkable n)"
proof (intro conjI impI)
  assume "map_of kvs ''subregions'' = Some JNull"
  then show "walk fmt (JObj kvs) indent out =
        (case map_of kvs ''path'' of
           None \<Rightarrow> (out, Some TypeError)
         | Some path \<Rightarrow> (if truthy path then out @ [line fmt indent path] else out, Some TypeError))"
    by (simp add: walk.simps dict_get_def py_iter_def split: option.splits)
next
  assume "snd (walk fmt n indent out) = None"
  then show "walkable n" by (simp add: walk_ok_iff)
qed

theorem walk_total_only_iterable_witness:
  "walk str_unused (JObj [(''path'', JStr ''asia''), (''subregions'', JNull)]) 0 [] =
     ([''- asia''], Some TypeError) \<and>
   snd (walk str_unused europe 0 []) = None \<and>
   walkable europe"
proof -
  note t = walk_total_only_iterable [of "[(''path'', JStr ''asia''), (''subregions'', JNull)]"
      str_unused 0 "[]" europe]
  from t have w: "walk str_unused (JObj [(''path'', JStr ''asia''), (''subregions'', JNull)]) 0 [] =
     ([''- asia''], Some TypeError)"
    by (simp add: line_def py_format_def)
  have e: "snd (walk str_unused europe 0 []) = None" by (simp add: walk_europe)
  with t have "walkable europe" by blast
  with w e show ?thesis by blast
qed

text \<open>
  C8 as stated says that \<open>walk\<close> is total only where every present \<open>subregions\<close>
  value is a sequence. The empty dict is a mapping, not a sequence, and \<open>walk\<close>
  ends without an exception on the node \<^verbatim>\<open>{"subregions": {}}\<close>.
\<close>

theorem walk_empty_mapping_counterexample:
  "map_of [(''subregions'', JObj [])] ''subregions'' = Some (JObj []) \<and>
   walk str_unused (JObj [(''subregions'', JObj [])]) 0 [] = ([], None)"
  by (simp add: walk.simps dict_get_def py_iter_def)

subsection \<open>Termination and determinism\<close>

text \<open>
  C9: the recursion of \<open>walk\<close> and of its loop is well-founded from every call, on
  every JSON value; a value of the datatype is a finite tree without sharing. The
  predicate \<open>walk_walk_each_dom\<close> is the accessible part of the call relation of the
  two functions: it holds of a call when no infinite chain of recursive calls starts
  there.
\<close>

theorem walk_terminates:
  "walk_walk_each_dom (Inl (fmt, region :: json, indent, out)) \<and>
   walk_walk_each_dom (Inr (fmt, regions :: json list, indent, out))"
proof -
  have "All walk_walk_each_dom"
  proof (relation "measure (\<lambda>c. case c of
          Inl (fmt, region, indent, out) \<Rightarrow> 2 * dict_weight region + 1
        | Inr (fmt, subs, indent, out) \<Rightarrow> 2 * each_weight subs)", goal_cases)
    case 1
    show ?case by simp
  next
    case (2 fmt region indent out path out1 v subs)
    from 2(3) have "weight v < Suc (dict_weight region)" by (rule dict_get_weight)
    moreover from 2(4) have "each_weight subs \<le> weight v" by (rule py_iter_weight)
    ultimately show ?case by simp
  next
    case 3
    then show ?case by (simp add: each_weight_def)
  next
    case 4
    then show ?case by (simp add: each_weight_def)
  qed
  then show ?thesis by blast
qed

theorem walk_terminates_witness:
  "walk_walk_each_dom (Inl (str_unused, europe, 0, [])) \<and>
   walk_walk_each_dom (Inr (str_unused, [europe], 0, []))"
  using walk_terminates [of str_unused europe 0 "[]" "[europe]"] .

text \<open>
  C10, on the store. A run of \<open>walk\<close> that ends hands back the store it was given:
  no object is changed, whatever the store holds. On a value that represents a
  well-formed tree the run ends, and what it appends to the standard output is fixed by
  the tree alone: not by the cells that hold it, not by the lines printed before. So a
  second run, from the store and the output the first one left, appends the same lines
  again.
\<close>

theorem walk_reads_only:
  "(walk_st sfmt fuel h v indent out = Some (h1, out1, e1) \<longrightarrow> h1 = h) \<and>
   (represents h v j \<and> wf_region j \<and> weight j < fuel \<longrightarrow>
      walk_st sfmt fuel h v indent out = Some (h, out @ fst (walk fmt j indent []), None) \<and>
      (case walk_st sfmt fuel h v indent out of
         None \<Rightarrow> None
       | Some (h2, out2, e2) \<Rightarrow> walk_st sfmt fuel h2 v indent out2) =
        Some (h, out @ fst (walk fmt j indent []) @ fst (walk fmt j indent []), None))"
proof (intro conjI impI)
  assume "walk_st sfmt fuel h v indent out = Some (h1, out1, e1)"
  then show "h1 = h" by (rule store_unchanged_aux(1) [rule_format])
next
  assume a: "represents h v j \<and> wf_region j \<and> weight j < fuel"
  then have "represents h v j" "wf_region j" "weight j < fuel" by simp_all
  then have r: "walk_st sfmt fuel h v indent out' =
      Some (h, out' @ fst (walk fmt j indent []), None)" for out'
    by (rule walk_st_wf)
  show "walk_st sfmt fuel h v indent out = Some (h, out @ fst (walk fmt j indent []), None)"
    by (rule r)
  show "(case walk_st sfmt fuel h v indent out of
         None \<Rightarrow> None
       | Some (h2, out2, e2) \<Rightarrow> walk_st sfmt fuel h2 v indent out2) =
        Some (h, out @ fst (walk fmt j indent []) @ fst (walk fmt j indent []), None)"
    by (simp add: r)
qed

theorem walk_reads_only_witness:
  "represents europe_store (VRef 10) europe \<and> wf_region europe \<and> weight europe < 40 \<and>
   walk_st str_st_unused 40 europe_store (VRef 10) 0 [] =
     Some (europe_store, [''- europe'', ''  - europe/albania''], None) \<and>
   walk_st str_st_unused 40 europe_store (VRef 10) 0 [''- europe'', ''  - europe/albania''] =
     Some (europe_store,
       [''- europe'', ''  - europe/albania'', ''- europe'', ''  - europe/albania''], None)"
proof -
  have wf: "wf_region europe" using wf_europe by simp
  have w: "weight europe < 40" by (simp add: europe_def)
  note pre = conjI [OF rep_europe conjI [OF wf w]]
  note t1 = walk_reads_only [of str_st_unused 40 europe_store "VRef 10" 0 "[]" _ _ _ europe str_unused,
      THEN conjunct2, rule_format, OF pre, THEN conjunct1]
  note t2 = walk_reads_only [of str_st_unused 40 europe_store "VRef 10" 0
      "[''- europe'', ''  - europe/albania'']" _ _ _ europe str_unused,
      THEN conjunct2, rule_format, OF pre, THEN conjunct1]
  from t1 have a: "walk_st str_st_unused 40 europe_store (VRef 10) 0 [] =
     Some (europe_store, [''- europe'', ''  - europe/albania''], None)"
    by (simp add: walk_europe)
  from t2 have b: "walk_st str_st_unused 40 europe_store (VRef 10) 0 [''- europe'', ''  - europe/albania''] =
     Some (europe_store,
       [''- europe'', ''  - europe/albania'', ''- europe'', ''  - europe/albania''], None)"
    by (simp add: walk_europe)
  from rep_europe wf w a b show ?thesis by blast
qed

end
